theory Spec2Isabelle
  imports Main
begin

section \<open>JavaScript values used by the script\<close>

text \<open>
  A JavaScript string is a sequence of UTF-16 code units; a code unit is modelled as a
  natural number, and a literal is written \<open>js ''abc''\<close>. The files of the script are
  read and written as UTF-8 text, and their contents are modelled as the text they hold.
\<close>

type_synonym jsstring = "nat list"

definition js :: "string \<Rightarrow> jsstring" where
  "js s = map of_char s"

text \<open>
  The numbers of the script are results of \<open>parseInt\<close> and loop counters: an integer or
  \<open>NaN\<close>. \<open>Num n\<close> stands for the integer \<open>n\<close> (the model is exact on the safe
  integer range of a double).
\<close>

datatype jsnum = Num int | NaN

fun js_le :: "jsnum \<Rightarrow> jsnum \<Rightarrow> bool" where
  "js_le (Num a) (Num b) = (a \<le> b)"
| "js_le _ _ = False"

fun js_ge :: "jsnum \<Rightarrow> jsnum \<Rightarrow> bool" where
  "js_ge (Num a) (Num b) = (a \<ge> b)"
| "js_ge _ _ = False"

fun js_succ :: "jsnum \<Rightarrow> jsnum" where
  "js_succ (Num a) = Num (a + 1)"
| "js_succ NaN = NaN"

subsection \<open>String.prototype.trim, split and Array.prototype.join\<close>

text \<open>White space and line terminators of ECMAScript, as code units.\<close>

definition is_ws :: "nat \<Rightarrow> bool" where
  "is_ws c = (c = 9 \<or> c = 10 \<or> c = 11 \<or> c = 12 \<or> c = 13 \<or> c = 32 \<or> c = 160 \<or>
              c = 5760 \<or> (8192 \<le> c \<and> c \<le> 8202) \<or> c = 8232 \<or> c = 8233 \<or>
              c = 8239 \<or> c = 8287 \<or> c = 12288 \<or> c = 65279)"

definition trim_start :: "jsstring \<Rightarrow> jsstring" where
  "trim_start s = dropWhile is_ws s"

definition trim_end :: "jsstring \<Rightarrow> jsstring" where
  "trim_end s = rev (dropWhile is_ws (rev s))"

definition trim :: "jsstring \<Rightarrow> jsstring" where
  "trim s = trim_end (trim_start s)"

text \<open>\<open>s.split(sep)\<close> for a one-character separator: never an empty array.\<close>

fun split_on :: "nat \<Rightarrow> jsstring \<Rightarrow> jsstring list" where
  "split_on sep [] = [[]]"
| "split_on sep (c # cs) =
     (if c = sep then [] # split_on sep cs
      else (case split_on sep cs of
              [] \<Rightarrow> [[c]]
            | p # ps \<Rightarrow> (c # p) # ps))"

text \<open>\<open>xs.join(sep)\<close> for a one-character separator.\<close>

fun join :: "nat \<Rightarrow> jsstring list \<Rightarrow> jsstring" where
  "join sep [] = []"
| "join sep [x] = x"
| "join sep (x # y # zs) = x @ sep # join sep (y # zs)"

subsection \<open>Number to string, and parseInt\<close>

definition digit_char :: "nat \<Rightarrow> nat" where
  "digit_char d = 48 + d"

fun nat_digits :: "nat \<Rightarrow> jsstring" where
  "nat_digits n = (if n < 10 then [digit_char n]
                   else nat_digits (n div 10) @ [digit_char (n mod 10)])"

declare nat_digits.simps [simp del]

text \<open>\<open>String(x)\<close> of a number, as \<open>join\<close> and template literals apply it.\<close>

fun num_to_string :: "jsnum \<Rightarrow> jsstring" where
  "num_to_string NaN = js ''NaN''"
| "num_to_string (Num n) =
     (if n < 0 then 45 # nat_digits (nat (- n)) else nat_digits (nat n))"

text \<open>The value of a code unit as a digit of the radix, if it is one.\<close>

definition digit_val :: "nat \<Rightarrow> nat \<Rightarrow> nat option" where
  "digit_val radix c =
     (let v = (if 48 \<le> c \<and> c \<le> 57 then Some (c - 48)
               else if 97 \<le> c \<and> c \<le> 122 then Some (c - 97 + 10)
               else if 65 \<le> c \<and> c \<le> 90 then Some (c - 65 + 10)
               else None)
      in case v of None \<Rightarrow> None | Some d \<Rightarrow> if d < radix then Some d else None)"

text \<open>
  The longest prefix of digits, read in the radix: \<open>None\<close> when the string does not
  start with a digit.
\<close>

fun read_digits :: "nat \<Rightarrow> nat option \<Rightarrow> jsstring \<Rightarrow> nat option" where
  "read_digits radix acc [] = acc"
| "read_digits radix acc (c # cs) =
     (case digit_val radix c of
        None \<Rightarrow> acc
      | Some d \<Rightarrow> read_digits radix
                   (Some ((case acc of None \<Rightarrow> 0 | Some a \<Rightarrow> a) * radix + d)) cs)"

text \<open>
  \<open>parseInt(s)\<close> with no radix argument: leading white space is skipped, a sign is read,
  a prefix \<open>0x\<close> or \<open>0X\<close> selects radix 16, and the longest prefix of digits is the
  value; \<open>NaN\<close> when there is no digit.
\<close>

definition parseInt :: "jsstring \<Rightarrow> jsnum" where
  "parseInt s =
     (let t = trim_start s;
          (neg, u) = (case t of
                        c # r \<Rightarrow> if c = 45 then (True, r)
                                 else if c = 43 then (False, r) else (False, t)
                      | [] \<Rightarrow> (False, t));
          (radix, v) = (case u of
                          a # b # r \<Rightarrow> if a = 48 \<and> (b = 120 \<or> b = 88) then (16, r)
                                       else (10, u)
                        | _ \<Rightarrow> (10, u))
      in case read_digits radix None v of
           None \<Rightarrow> NaN
         | Some n \<Rightarrow> Num (if neg then - int n else int n))"

text \<open>\<open>parseInt(x)\<close> of a destructured array element that may be \<open>undefined\<close>.\<close>

definition parseInt_opt :: "jsstring option \<Rightarrow> jsnum" where
  "parseInt_opt x = parseInt (case x of None \<Rightarrow> js ''undefined'' | Some s \<Rightarrow> s)"

section \<open>Configuration\<close>

definition fromSlot :: int where
  "fromSlot = 327600"

definition toSlot :: int where
  "toSlot = 442799"

text \<open>
  \<open>/dappnode/i.test(s)\<close>: the pattern occurs somewhere in \<open>s\<close>, each letter in either
  case. The pattern has no flag \<open>g\<close>, so the test keeps no state, and no flag \<open>u\<close>, so
  only the two ASCII forms of a letter match it.
\<close>

definition ci_char :: "nat \<Rightarrow> nat \<Rightarrow> bool" where
  "ci_char p c = (c = p \<or> c + 32 = p)"

fun ci_prefix :: "jsstring \<Rightarrow> jsstring \<Rightarrow> bool" where
  "ci_prefix [] s = True"
| "ci_prefix (p # ps) [] = False"
| "ci_prefix (p # ps) (c # cs) = (ci_char p c \<and> ci_prefix ps cs)"

fun regex_search :: "jsstring \<Rightarrow> jsstring \<Rightarrow> bool" where
  "regex_search pat [] = ci_prefix pat []"
| "regex_search pat (c # cs) = (ci_prefix pat (c # cs) \<or> regex_search pat cs)"

definition graffitiToMatch_test :: "jsstring \<Rightarrow> bool" where
  "graffitiToMatch_test s = regex_search (js ''dappnode'') s"

section \<open>The record store: class CsvRecord\<close>

definition separator :: nat where
  "separator = 44"

definition newline :: nat where
  "newline = 10"

definition header :: jsstring where
  "header = join separator [js ''slot'', js ''proposerIndex'', js ''graffiti'']"

record Row =
  slot :: jsnum
  proposerIndex :: jsnum
  graffiti :: jsstring

datatype error = ENOENT | RequestError

text \<open>
  The file \<open>block-record.csv\<close>: \<open>None\<close> when it does not exist, else its text.
  A write through the append stream is modelled as done when \<open>write\<close> is called.
\<close>

type_synonym csv_file = "jsstring option"

definition readFileSync :: "csv_file \<Rightarrow> error + jsstring" where
  "readFileSync f = (case f of None \<Rightarrow> Inl ENOENT | Some c \<Rightarrow> Inr c)"

text \<open>The constructor writes the header line when the file does not exist.\<close>

definition CsvRecord_new :: "csv_file \<Rightarrow> csv_file" where
  "CsvRecord_new f = (case f of None \<Rightarrow> Some (header @ [newline]) | Some c \<Rightarrow> Some c)"

definition row_line :: "Row \<Rightarrow> jsstring" where
  "row_line r =
     join separator [num_to_string (slot r), num_to_string (proposerIndex r), graffiti r]"

text \<open>The stream is opened with flag \<open>a\<close>: it appends, and creates a missing file.\<close>

definition addEntry :: "Row \<Rightarrow> csv_file \<Rightarrow> csv_file" where
  "addEntry r f = Some ((case f of None \<Rightarrow> [] | Some c \<Rightarrow> c) @ row_line r @ [newline])"

text \<open>An array element by index: \<open>None\<close> is \<open>undefined\<close>.\<close>

definition nth_opt :: "'a list \<Rightarrow> nat \<Rightarrow> 'a option" where
  "nth_opt xs i = (if i < length xs then Some (xs ! i) else None)"

definition getLastSlot :: "csv_file \<Rightarrow> error + jsnum option" where
  "getLastSlot f =
     (case readFileSync f of
        Inl e \<Rightarrow> Inl e
      | Inr c \<Rightarrow>
          (let rows = split_on newline (trim c);
               lastRow = map_option trim (nth_opt rows (length rows - 1))
           in case lastRow of
                None \<Rightarrow> Inr None
              | Some l \<Rightarrow>
                  if l = [] \<or> l = header then Inr None
                  else Inr (Some (parseInt_opt (nth_opt (split_on separator l) 0)))))"

definition parse_row :: "jsstring \<Rightarrow> Row" where
  "parse_row row =
     (let fields = split_on separator row
      in \<lparr>slot = parseInt_opt (nth_opt fields 0),
          proposerIndex = parseInt_opt (nth_opt fields 1),
          graffiti = join separator (drop 2 fields)\<rparr>)"

definition readEntries :: "csv_file \<Rightarrow> error + Row list" where
  "readEntries f =
     (case readFileSync f of
        Inl e \<Rightarrow> Inl e
      | Inr c \<Rightarrow> Inr (map parse_row (split_on newline (trim c))))"

section \<open>The beacon node: fetchBlock and parseGraffiti\<close>

record block =
  block_slot :: jsstring
  block_proposerIndex :: jsstring
  block_graffiti :: jsstring

text \<open>
  The beacon API is a parameter: the blocks it answers for a slot, or a failure of the
  request (which \<open>got\<close> raises).
\<close>

type_synonym beacon_api = "jsnum \<Rightarrow> error + block list"

definition fetchBlock :: "beacon_api \<Rightarrow> jsnum \<Rightarrow> error + block list" where
  "fetchBlock api s = api s"

text \<open>
  \<open>Buffer.from(s, "base64")\<close>, a buffer being a list of bytes: characters outside the
  alphabet are skipped, decoding stops at the first \<open>=\<close>, and the two alphabets
  (\<open>+/\<close> and \<open>-_\<close>) are both read.
\<close>

definition unbase64 :: "nat \<Rightarrow> nat option" where
  "unbase64 c =
     (if 65 \<le> c \<and> c \<le> 90 then Some (c - 65)
      else if 97 \<le> c \<and> c \<le> 122 then Some (c - 71)
      else if 48 \<le> c \<and> c \<le> 57 then Some (c + 4)
      else if c = 43 \<or> c = 45 then Some 62
      else if c = 47 \<or> c = 95 then Some 63
      else None)"

fun sextets :: "jsstring \<Rightarrow> nat list" where
  "sextets [] = []"
| "sextets (c # cs) =
     (if c = 61 then []
      else (case unbase64 c of None \<Rightarrow> sextets cs | Some v \<Rightarrow> v # sextets cs))"

fun from_sextets :: "nat list \<Rightarrow> nat list" where
  "from_sextets (a # b # c # d # r) =
     [a * 4 + b div 16, (b mod 16) * 16 + c div 4, (c mod 4) * 64 + d] @ from_sextets r"
| "from_sextets [a, b, c] = [a * 4 + b div 16, (b mod 16) * 16 + c div 4]"
| "from_sextets [a, b] = [a * 4 + b div 16]"
| "from_sextets _ = []"

definition Buffer_from_base64 :: "jsstring \<Rightarrow> nat list" where
  "Buffer_from_base64 s = from_sextets (sextets s)"

text \<open>
  \<open>buff.toString("utf8")\<close>: UTF-8 decoding into UTF-16 code units, each maximal
  ill-formed part replaced by U+FFFD.
\<close>

definition is_cont :: "nat \<Rightarrow> bool" where
  "is_cont b = (128 \<le> b \<and> b \<le> 191)"

definition code_units :: "nat \<Rightarrow> jsstring" where
  "code_units cp =
     (if cp < 65536 then [cp]
      else [55296 + (cp - 65536) div 1024, 56320 + (cp - 65536) mod 1024])"

text \<open>The range allowed for the byte after the lead byte \<open>b\<close>.\<close>

definition second_lo :: "nat \<Rightarrow> nat" where
  "second_lo b = (if b = 224 then 160 else if b = 240 then 144 else 128)"

definition second_hi :: "nat \<Rightarrow> nat" where
  "second_hi b = (if b = 237 then 159 else if b = 244 then 143 else 191)"

fun utf8_decode :: "nat list \<Rightarrow> jsstring" where
  "utf8_decode [] = []"
| "utf8_decode (b # bs) =
     (if b < 128 then b # utf8_decode bs
      else if 194 \<le> b \<and> b \<le> 223 then
        (case bs of
           [] \<Rightarrow> [65533]
         | c # r \<Rightarrow>
             if is_cont c then ((b - 192) * 64 + (c - 128)) # utf8_decode r
             else 65533 # utf8_decode bs)
      else if 224 \<le> b \<and> b \<le> 239 then
        (case bs of
           [] \<Rightarrow> [65533]
         | c # r \<Rightarrow>
             if second_lo b \<le> c \<and> c \<le> second_hi b then
               (case r of
                  [] \<Rightarrow> [65533]
                | d # r' \<Rightarrow>
                    if is_cont d
                    then ((b - 224) * 4096 + (c - 128) * 64 + (d - 128)) # utf8_decode r'
                    else 65533 # utf8_decode r)
             else 65533 # utf8_decode bs)
      else if 240 \<le> b \<and> b \<le> 244 then
        (case bs of
           [] \<Rightarrow> [65533]
         | c # r \<Rightarrow>
             if second_lo b \<le> c \<and> c \<le> second_hi b then
               (case r of
                  [] \<Rightarrow> [65533]
                | d # r' \<Rightarrow>
                    if is_cont d then
                      (case r' of
                         [] \<Rightarrow> [65533]
                       | e # r'' \<Rightarrow>
                           if is_cont e
                           then code_units ((b - 240) * 262144 + (c - 128) * 4096 +
                                            (d - 128) * 64 + (e - 128)) @ utf8_decode r''
                           else 65533 # utf8_decode r')
                    else 65533 # utf8_decode r)
             else 65533 # utf8_decode bs)
      else 65533 # utf8_decode bs)"

text \<open>
  The loop of \<open>parseGraffiti\<close> runs over the entries \<open>(i, byte)\<close> of the buffer as it
  was decoded, and at every zero byte replaces the current buffer by its first \<open>i\<close>
  bytes.
\<close>

fun graffiti_loop :: "(nat \<times> nat) list \<Rightarrow> nat list \<Rightarrow> nat list" where
  "graffiti_loop [] buff = buff"
| "graffiti_loop ((i, byte) # es) buff =
     graffiti_loop es (if byte = 0 then take i buff else buff)"

definition parseGraffiti :: "jsstring \<Rightarrow> jsstring" where
  "parseGraffiti base64 =
     (let buff = Buffer_from_base64 base64
      in utf8_decode (graffiti_loop (enumerate 0 buff) buff))"

section \<open>The scan loop of runScript\<close>

text \<open>
  The state of the scan: the record file, the slots requested from the beacon node so
  far, and the progress lines printed.
\<close>

record scan_state =
  store :: csv_file
  fetched :: "jsnum list"
  progress :: "jsstring list"

fun add_blocks :: "block list \<Rightarrow> scan_state \<Rightarrow> scan_state" where
  "add_blocks [] st = st"
| "add_blocks (b # bs) st =
     add_blocks bs
       (st\<lparr>store := addEntry \<lparr>slot = parseInt (block_slot b),
                                proposerIndex = parseInt (block_proposerIndex b),
                                graffiti = parseGraffiti (block_graffiti b)\<rparr> (store st),
           progress := progress st @ [js ''slot '' @ block_slot b]\<rparr>)"

text \<open>
  \<open>for (let slot = lastSlot + 1; slot <= toSlot && !stop; slot++)\<close>. The interrupt flag
  is a parameter: \<open>stop s\<close> is its value when the condition is evaluated at slot \<open>s\<close>.
  A failed request ends the run with the state reached.
\<close>

function scan :: "beacon_api \<Rightarrow> (jsnum \<Rightarrow> bool) \<Rightarrow> jsnum \<Rightarrow> scan_state \<Rightarrow>
    (error \<times> scan_state) + scan_state" where
  "scan api stop s st =
     (if js_le s (Num toSlot) \<and> \<not> stop s then
        (case fetchBlock api s of
           Inl e \<Rightarrow> Inl (e, st\<lparr>fetched := fetched st @ [s]\<rparr>)
         | Inr blocks \<Rightarrow>
             scan api stop (js_succ s) (add_blocks blocks (st\<lparr>fetched := fetched st @ [s]\<rparr>)))
      else Inr st)"
  by pat_completeness auto
termination
  by (relation "measure (\<lambda>(api, stop, s, st).
        case s of Num n \<Rightarrow> nat (toSlot + 1 - n) | NaN \<Rightarrow> 0)")
     (auto split: jsnum.splits)

declare scan.simps [simp del]

text \<open>The first lines of \<open>runScript\<close>, up to the end of the scan loop.\<close>

definition scan_phase :: "beacon_api \<Rightarrow> (jsnum \<Rightarrow> bool) \<Rightarrow> csv_file \<Rightarrow>
    (error \<times> scan_state) + scan_state" where
  "scan_phase api stop f =
     (let f1 = CsvRecord_new f;
          st0 = \<lparr>store = f1, fetched = [], progress = []\<rparr>
      in case getLastSlot f1 of
           Inl e \<Rightarrow> Inl (e, st0)
         | Inr r \<Rightarrow>
             (let lastSlot = (case r of None \<Rightarrow> Num fromSlot | Some v \<Rightarrow> v)
              in scan api stop (js_succ lastSlot) st0))"

text \<open>The state a scan ends in, failed or not.\<close>

definition final_state :: "(error \<times> 's) + 's \<Rightarrow> 's" where
  "final_state r = (case r of Inl (e, st) \<Rightarrow> st | Inr st \<Rightarrow> st)"

section \<open>Filter and aggregate\<close>

text \<open>A \<open>Set\<close> keeps its elements in insertion order; \<open>add\<close> ignores a present one.\<close>

definition set_add :: "'a \<Rightarrow> 'a list \<Rightarrow> 'a list" where
  "set_add x s = (if x \<in> set s then s else s @ [x])"

fun collect :: "Row list \<Rightarrow> jsnum list \<Rightarrow> jsnum list" where
  "collect [] proposerIndexes = proposerIndexes"
| "collect (entry # entries) proposerIndexes =
     collect entries
       (if js_ge (slot entry) (Num fromSlot) \<and> js_le (slot entry) (Num toSlot) \<and>
           graffitiToMatch_test (graffiti entry)
        then set_add (proposerIndex entry) proposerIndexes
        else proposerIndexes)"

definition validatorIndexes :: "Row list \<Rightarrow> jsnum list" where
  "validatorIndexes entries = collect entries []"

section \<open>The deposit resolver: fetchDepositAddresses\<close>

record deposit =
  amount :: int
  from_address :: jsstring
  publickey :: jsstring
  removed :: bool
  valid_signature :: bool

text \<open>
  The explorer API is a parameter: the deposits it answers for the indexes of one
  request (the request's URL is built from them), or a failure of the request.
\<close>

type_synonym explorer_api = "jsnum list \<Rightarrow> error + deposit list"

record resolver_state =
  addresses :: "jsstring list"
  requests :: "jsnum list list"
  console :: "jsstring list"

fun check_deposits :: "deposit list \<Rightarrow> resolver_state \<Rightarrow> resolver_state" where
  "check_deposits [] st = st"
| "check_deposits (d # ds) st =
     check_deposits ds
       (if amount d < 32000000000 \<or> removed d \<or> \<not> valid_signature d
        then st\<lparr>console := console st @ [js ''Bad deposit for pubkey: '' @ publickey d]\<rparr>
        else st\<lparr>addresses := addresses st @ [from_address d]\<rparr>)"

definition step :: nat where
  "step = 100"

function fetch_loop :: "explorer_api \<Rightarrow> jsnum list \<Rightarrow> nat \<Rightarrow> resolver_state \<Rightarrow>
    (error \<times> resolver_state) + resolver_state" where
  "fetch_loop api vis i st =
     (if i < length vis then
        (let indexes = take step (drop i vis);
             st1 = st\<lparr>requests := requests st @ [indexes]\<rparr>
         in case api indexes of
              Inl e \<Rightarrow> Inl (e, st1)
            | Inr data \<Rightarrow> fetch_loop api vis (i + step) (check_deposits data st1))
      else Inr st)"
  by pat_completeness auto
termination
  by (relation "measure (\<lambda>(api, vis, i, st). length vis - i)") (auto simp: step_def)

declare fetch_loop.simps [simp del]

definition fetchDepositAddresses :: "explorer_api \<Rightarrow> jsnum list \<Rightarrow>
    (error \<times> resolver_state) + resolver_state" where
  "fetchDepositAddresses api vis =
     fetch_loop api vis 0 \<lparr>addresses = [], requests = [], console = []\<rparr>"

section \<open>runScript\<close>

text \<open>\<open>[...new Set(xs)]\<close>.\<close>

definition unique :: "'a list \<Rightarrow> 'a list" where
  "unique xs = foldl (\<lambda>s x. set_add x s) [] xs"

record run_result =
  record_file :: csv_file
  indexes_file :: jsstring
  addresses_file :: jsstring

definition runScript :: "beacon_api \<Rightarrow> explorer_api \<Rightarrow> (jsnum \<Rightarrow> bool) \<Rightarrow> csv_file \<Rightarrow>
    error + run_result" where
  "runScript beacon explorer stop f =
     (case scan_phase beacon stop f of
        Inl (e, st) \<Rightarrow> Inl e
      | Inr st \<Rightarrow>
          (case readEntries (store st) of
             Inl e \<Rightarrow> Inl e
           | Inr entries \<Rightarrow>
               (let vis = validatorIndexes entries
                in case fetchDepositAddresses explorer vis of
                     Inl (e, rs) \<Rightarrow> Inl e
                   | Inr rs \<Rightarrow>
                       Inr \<lparr>record_file = store st,
                            indexes_file = join newline (map num_to_string vis),
                            addresses_file = join newline (unique (addresses rs))\<rparr>)))"

section \<open>The specification's notions\<close>

text \<open>A deposit is valid when it has the full amount, is not removed and is signed.\<close>

definition deposit_valid :: "deposit \<Rightarrow> bool" where
  "deposit_valid d = (amount d \<ge> 32000000000 \<and> \<not> removed d \<and> valid_signature d)"

definition bad_deposit_line :: "deposit \<Rightarrow> jsstring" where
  "bad_deposit_line d = js ''Bad deposit for pubkey: '' @ publickey d"

text \<open>A list cut into consecutive batches of 100, the last one shorter.\<close>

function batches :: "'a list \<Rightarrow> 'a list list" where
  "batches xs = (if xs = [] then [] else take 100 xs # batches (drop 100 xs))"
  by pat_completeness auto
termination
  by (relation "measure length") auto

declare batches.simps [simp del]

text \<open>One successful request of the resolver: the batch is asked, its deposits checked.\<close>

definition resolve_batch ::
    "(jsnum list \<Rightarrow> deposit list) \<Rightarrow> resolver_state \<Rightarrow> jsnum list \<Rightarrow> resolver_state" where
  "resolve_batch resp st b = check_deposits (resp b) (st\<lparr>requests := requests st @ [b]\<rparr>)"

text \<open>A slot inside the window \<open>[fromSlot, toSlot]\<close>; a record that passes the filter.\<close>

definition in_window :: "jsnum \<Rightarrow> bool" where
  "in_window s = (case s of Num n \<Rightarrow> fromSlot \<le> n \<and> n \<le> toSlot | NaN \<Rightarrow> False)"

definition matching :: "Row \<Rightarrow> bool" where
  "matching e = (in_window (slot e) \<and> graffitiToMatch_test (graffiti e))"

text \<open>The elements of a list in the order of their first occurrence, each once.\<close>

fun first_seen :: "'a list \<Rightarrow> 'a list" where
  "first_seen [] = []"
| "first_seen (x # xs) = x # filter (\<lambda>y. y \<noteq> x) (first_seen xs)"

text \<open>The record that the header line is parsed into.\<close>

definition header_row :: Row where
  "header_row = \<lparr>slot = NaN, proposerIndex = NaN, graffiti = js ''graffiti''\<rparr>"




section \<open>Properties of parseGraffiti\<close>

lemma graffiti_loop_short:
  "length buff \<le> k \<Longrightarrow> graffiti_loop (enumerate k xs) buff = buff"
  by (induction xs arbitrary: k) auto

lemma graffiti_loop_prefix:
  "0 \<notin> set pre \<Longrightarrow>
   graffiti_loop (enumerate (length pre) xs) (pre @ xs) = pre @ takeWhile (\<lambda>b. b \<noteq> 0) xs"
proof (induction xs arbitrary: pre)
  case Nil
  then show ?case by simp
next
  case (Cons x xs)
  show ?case
  proof (cases "x = 0")
    case True
    then show ?thesis by (simp add: graffiti_loop_short)
  next
    case False
    with Cons.prems have "0 \<notin> set (pre @ [x])" by simp
    from Cons.IH [OF this] False show ?thesis by simp
  qed
qed

lemma graffiti_loop_takeWhile:
  "graffiti_loop (enumerate 0 buff) buff = takeWhile (\<lambda>b. b \<noteq> 0) buff"
  using graffiti_loop_prefix [of "[]" buff] by simp

text \<open>
  Claim C5. For every base64 payload, \<open>parseGraffiti\<close> returns the UTF-8 decoding of the
  decoded bytes cut at the first zero byte; the payload \<open>dGVzdAAAAAA=\<close> gives \<open>test\<close>.
\<close>

theorem parseGraffiti_truncates:
  "parseGraffiti base64 =
     utf8_decode (takeWhile (\<lambda>b. b \<noteq> 0) (Buffer_from_base64 base64))
   \<and> parseGraffiti (js ''dGVzdAAAAAA='') = js ''test''"
proof
  show "parseGraffiti base64 =
          utf8_decode (takeWhile (\<lambda>b. b \<noteq> 0) (Buffer_from_base64 base64))"
    by (simp add: parseGraffiti_def graffiti_loop_takeWhile)
  show "parseGraffiti (js ''dGVzdAAAAAA='') = js ''test''"
    by (simp add: parseGraffiti_def js_def Buffer_from_base64_def unbase64_def)
qed

theorem parseGraffiti_truncates_witness:
  "parseGraffiti (js ''QUIAQw=='') = utf8_decode [65, 66]"
  using parseGraffiti_truncates [of "js ''QUIAQw==''"]
  by (simp add: js_def Buffer_from_base64_def unbase64_def)

section \<open>Properties of the filter and of the aggregation\<close>

lemma set_first_seen: "set (first_seen xs) = set xs"
  by (induction xs) auto

lemma distinct_first_seen: "distinct (first_seen xs)"
  by (induction xs) (auto simp: set_first_seen)

lemma window_iff: "(js_ge s (Num fromSlot) \<and> js_le s (Num toSlot)) = in_window s"
  by (cases s) (auto simp: in_window_def)

lemma collect_step:
  "collect (e # es) acc = collect es (if matching e then set_add (proposerIndex e) acc else acc)"
  using window_iff [of "slot e"] by (auto simp: matching_def)

lemma filter_first_seen_absorb:
  "x \<in> set acc \<Longrightarrow>
   filter (\<lambda>y. y \<noteq> x \<and> y \<notin> set acc) ys = filter (\<lambda>y. y \<notin> set acc) ys"
  by (rule filter_cong) auto

lemma collect_eq:
  "collect es acc =
     acc @ filter (\<lambda>y. y \<notin> set acc) (first_seen (map proposerIndex (filter matching es)))"
proof (induction es arbitrary: acc)
  case Nil
  then show ?case by simp
next
  case (Cons e es)
  show ?case
  proof (cases "matching e")
    case False
    then show ?thesis
      using Cons.IH [of acc] by (simp only: collect_step) simp
  next
    case True
    show ?thesis
    proof (cases "proposerIndex e \<in> set acc")
      case in_acc: True
      with True show ?thesis
        using Cons.IH [of acc]
        by (simp only: collect_step) (simp add: set_add_def filter_first_seen_absorb)
    next
      case out: False
      have "filter (\<lambda>y. y \<notin> set (acc @ [proposerIndex e])) zs =
            filter (\<lambda>y. y \<notin> set acc) (filter (\<lambda>y. y \<noteq> proposerIndex e) zs)" for zs
        by (induction zs) auto
      with True out show ?thesis
        using Cons.IH [of "acc @ [proposerIndex e]"]
        by (simp only: collect_step) (simp add: set_add_def)
    qed
  qed
qed

lemma validatorIndexes_eq:
  "validatorIndexes entries = first_seen (map proposerIndex (filter matching entries))"
  by (simp add: validatorIndexes_def collect_eq)

lemma ci_prefix_iff:
  "ci_prefix pat s = (\<exists>mid post. s = mid @ post \<and> list_all2 ci_char pat mid)"
proof (induction pat s rule: ci_prefix.induct)
  case (1 s)
  then show ?case by simp
next
  case (2 p ps)
  then show ?case by (simp add: list_all2_Cons1)
next
  case (3 p ps c cs)
  show ?case
  proof
    assume "ci_prefix (p # ps) (c # cs)"
    with 3 obtain mid post where "cs = mid @ post" "list_all2 ci_char ps mid" "ci_char p c"
      by auto
    then have "c # cs = (c # mid) @ post \<and> list_all2 ci_char (p # ps) (c # mid)" by simp
    then show "\<exists>mid post. c # cs = mid @ post \<and> list_all2 ci_char (p # ps) mid" by blast
  next
    assume "\<exists>mid post. c # cs = mid @ post \<and> list_all2 ci_char (p # ps) mid"
    then obtain mid post where m: "c # cs = mid @ post" "list_all2 ci_char (p # ps) mid"
      by blast
    then obtain m ms where "mid = m # ms" "ci_char p m" "list_all2 ci_char ps ms"
      by (auto simp: list_all2_Cons1)
    with m 3 show "ci_prefix (p # ps) (c # cs)" by auto
  qed
qed

lemma regex_search_iff:
  "regex_search pat s =
     (\<exists>pre mid post. s = pre @ mid @ post \<and> list_all2 ci_char pat mid)"
proof (induction s)
  case Nil
  then show ?case by (cases pat) (auto simp: list_all2_Cons1)
next
  case (Cons c cs)
  show ?case
  proof
    assume "regex_search pat (c # cs)"
    then consider "ci_prefix pat (c # cs)" | "regex_search pat cs" by auto
    then show "\<exists>pre mid post. c # cs = pre @ mid @ post \<and> list_all2 ci_char pat mid"
    proof cases
      case 1
      then obtain mid post where "c # cs = [] @ mid @ post \<and> list_all2 ci_char pat mid"
        by (auto simp: ci_prefix_iff)
      then show ?thesis by blast
    next
      case 2
      with Cons obtain pre mid post where "cs = pre @ mid @ post" "list_all2 ci_char pat mid"
        by auto
      then have "c # cs = (c # pre) @ mid @ post \<and> list_all2 ci_char pat mid" by simp
      then show ?thesis by blast
    qed
  next
    assume "\<exists>pre mid post. c # cs = pre @ mid @ post \<and> list_all2 ci_char pat mid"
    then obtain pre mid post where h: "c # cs = pre @ mid @ post" "list_all2 ci_char pat mid"
      by blast
    show "regex_search pat (c # cs)"
    proof (cases pre)
      case Nil
      with h have "ci_prefix pat (c # cs)" by (auto simp: ci_prefix_iff)
      then show ?thesis by simp
    next
      case (Cons a pre')
      with h have "cs = pre' @ mid @ post" by simp
      with h Cons.IH have "regex_search pat cs" by blast
      then show ?thesis by simp
    qed
  qed
qed

section \<open>Properties of the deposit resolver\<close>

lemma check_deposits_eq:
  "check_deposits ds st =
     st\<lparr>addresses := addresses st @ map from_address (filter deposit_valid ds),
        console := console st @ map bad_deposit_line (filter (\<lambda>d. \<not> deposit_valid d) ds)\<rparr>"
proof (induction ds arbitrary: st)
  case Nil
  then show ?case by simp
next
  case (Cons d ds)
  show ?case
    by (cases "deposit_valid d")
       (auto simp: Cons.IH deposit_valid_def bad_deposit_line_def)
qed

lemma batches_step:
  "i < length vis \<Longrightarrow>
   batches (drop i vis) = take step (drop i vis) # batches (drop (i + step) vis)"
  by (subst batches.simps) (simp add: step_def add.commute)

lemma fetch_loop_success:
  "fetch_loop (\<lambda>b. Inr (resp b)) vis i st =
     Inr (foldl (resolve_batch resp) st (batches (drop i vis)))"
proof (induction "(\<lambda>b. Inr (resp b)) :: explorer_api" vis i st rule: fetch_loop.induct)
  case (1 vis i st)
  show ?case
  proof (cases "i < length vis")
    case True
    show ?thesis
      using True "1" [OF True refl refl refl]
      by (subst fetch_loop.simps) (simp add: batches_step resolve_batch_def Let_def)
  next
    case False
    then show ?thesis
      by (subst fetch_loop.simps) (simp add: batches.simps)
  qed
qed

lemma fetch_loop_requests_prefix:
  "\<exists>k. requests (final_state (fetch_loop api vis i st)) =
        requests st @ take k (batches (drop i vis))"
proof (induction api vis i st rule: fetch_loop.induct)
  case (1 api vis i st)
  show ?case
  proof (cases "i < length vis")
    case True
    let ?b = "take step (drop i vis)"
    let ?st1 = "st\<lparr>requests := requests st @ [?b]\<rparr>"
    show ?thesis
    proof (cases "api ?b")
      case (Inl e)
      then have "fetch_loop api vis i st = Inl (e, ?st1)"
        using True by (subst fetch_loop.simps) (simp add: Let_def)
      then have "requests (final_state (fetch_loop api vis i st)) =
                 requests st @ take 1 (batches (drop i vis))"
        using True by (simp add: final_state_def batches_step)
      then show ?thesis by blast
    next
      case (Inr data)
      then have eq: "fetch_loop api vis i st =
                     fetch_loop api vis (i + step) (check_deposits data ?st1)"
        using True by (subst fetch_loop.simps) (simp add: Let_def)
      from "1" [OF True refl refl Inr] obtain k where
        "requests (final_state (fetch_loop api vis (i + step) (check_deposits data ?st1))) =
         requests (check_deposits data ?st1) @ take k (batches (drop (i + step) vis))"
        by blast
      then have "requests (final_state (fetch_loop api vis i st)) =
                 requests st @ take (Suc k) (batches (drop i vis))"
        using True by (simp add: eq batches_step check_deposits_eq)
      then show ?thesis by blast
    qed
  next
    case False
    then have "requests (final_state (fetch_loop api vis i st)) =
               requests st @ take 0 (batches (drop i vis))"
      by (subst fetch_loop.simps) (simp add: final_state_def)
    then show ?thesis by blast
  qed
qed

lemma requests_foldl:
  "requests (foldl (resolve_batch resp) st bs) = requests st @ bs"
  by (induction bs arbitrary: st) (simp_all add: resolve_batch_def check_deposits_eq)

lemma addresses_foldl:
  "addresses (foldl (resolve_batch resp) st bs) =
     addresses st @ map from_address (filter deposit_valid (concat (map resp bs)))"
  by (induction bs arbitrary: st) (simp_all add: resolve_batch_def check_deposits_eq)

lemma console_foldl:
  "console (foldl (resolve_batch resp) st bs) =
     console st @ map bad_deposit_line (filter (\<lambda>d. \<not> deposit_valid d) (concat (map resp bs)))"
  by (induction bs arbitrary: st) (simp_all add: resolve_batch_def check_deposits_eq)

lemma concat_batches: "concat (batches xs) = xs"
  by (induction xs rule: batches.induct) (subst batches.simps, simp)

lemma batches_length: "b \<in> set (batches xs) \<Longrightarrow> 0 < length b \<and> length b \<le> 100"
proof (induction xs rule: batches.induct)
  case (1 xs)
  show ?case
  proof (cases "xs = []")
    case True
    with "1.prems" show ?thesis by (simp add: batches.simps)
  next
    case False
    with "1.prems" have "b = take 100 xs \<or> b \<in> set (batches (drop 100 xs))"
      by (subst (asm) batches.simps) simp
    then show ?thesis using "1.IH" [OF False] False by auto
  qed
qed

lemma batches_butlast: "b \<in> set (butlast (batches xs)) \<Longrightarrow> length b = 100"
proof (induction xs rule: batches.induct)
  case (1 xs)
  show ?case
  proof (cases "xs = []")
    case True
    with "1.prems" show ?thesis by (simp add: batches.simps)
  next
    case False
    show ?thesis
    proof (cases "drop 100 xs = []")
      case True
      then have "batches (drop 100 xs) = []" by (simp add: batches.simps)
      with False "1.prems" show ?thesis by (subst (asm) batches.simps) simp
    next
      case d: False
      then have ne: "batches (drop 100 xs) \<noteq> []" by (subst batches.simps) simp
      from d have "length (take 100 xs) = 100" by simp
      moreover from "1.prems" False ne
      have "b = take 100 xs \<or> b \<in> set (butlast (batches (drop 100 xs)))"
        by (subst (asm) batches.simps) simp
      ultimately show ?thesis using "1.IH" [OF False] by auto
    qed
  qed
qed

lemma batches_250: "length xs = 250 \<Longrightarrow> map length (batches xs) = [100, 100, 50]"
  apply (subst batches.simps, auto)
  apply (subst batches.simps, auto)
  apply (subst batches.simps, auto)
  apply (subst batches.simps, auto)
  done

section \<open>The claims on filtering and on the resolver\<close>

text \<open>
  Claim C6. A deposit's funding address is collected exactly when the deposit is valid
  (amount at least 32000000000, not removed, signature valid); an invalid deposit is
  logged by its public key and left out, and the resolver still ends without a failure
  when its requests succeed.
\<close>

theorem deposit_validity:
  "addresses (check_deposits ds st) = addresses st @ map from_address (filter deposit_valid ds)
   \<and> console (check_deposits ds st) =
       console st @ map bad_deposit_line (filter (\<lambda>d. \<not> deposit_valid d) ds)
   \<and> (\<exists>rs. fetchDepositAddresses (\<lambda>b. Inr (resp b)) vis = Inr rs
         \<and> addresses rs =
             map from_address (filter deposit_valid (concat (map resp (batches vis))))
         \<and> console rs =
             map bad_deposit_line
               (filter (\<lambda>d. \<not> deposit_valid d) (concat (map resp (batches vis)))))"
  by (simp add: check_deposits_eq fetchDepositAddresses_def fetch_loop_success
      addresses_foldl console_foldl)

theorem deposit_validity_witness:
  "addresses (check_deposits
      [\<lparr>amount = 32000000000, from_address = js ''0xa1'', publickey = js ''0xb1'',
        removed = False, valid_signature = True\<rparr>,
       \<lparr>amount = 31000000000, from_address = js ''0xa2'', publickey = js ''0xb2'',
        removed = False, valid_signature = True\<rparr>]
      \<lparr>addresses = [], requests = [], console = []\<rparr>) = [js ''0xa1'']
   \<and> console (check_deposits
      [\<lparr>amount = 32000000000, from_address = js ''0xa1'', publickey = js ''0xb1'',
        removed = False, valid_signature = True\<rparr>,
       \<lparr>amount = 31000000000, from_address = js ''0xa2'', publickey = js ''0xb2'',
        removed = False, valid_signature = True\<rparr>]
      \<lparr>addresses = [], requests = [], console = []\<rparr>) =
      [js ''Bad deposit for pubkey: 0xb2'']"
  using deposit_validity [of
      "[\<lparr>amount = 32000000000, from_address = js ''0xa1'', publickey = js ''0xb1'',
         removed = False, valid_signature = True\<rparr>,
        \<lparr>amount = 31000000000, from_address = js ''0xa2'', publickey = js ''0xb2'',
         removed = False, valid_signature = True\<rparr>]"
      "\<lparr>addresses = [], requests = [], console = []\<rparr>" "\<lambda>b. []" "[]"]
  by (simp add: deposit_valid_def bad_deposit_line_def js_def)

text \<open>
  Claim C7. A record contributes its proposer index exactly when its slot is a number in
  \<open>[fromSlot, toSlot]\<close> and its graffiti contains the pattern in either case; the
  indexes of the matching records appear once each, in the order they are first seen.
\<close>

theorem filter_and_dedup:
  "validatorIndexes entries = first_seen (map proposerIndex (filter matching entries))
   \<and> distinct (validatorIndexes entries)
   \<and> set (validatorIndexes entries) = proposerIndex ` {e \<in> set entries. matching e}
   \<and> (matching e \<longleftrightarrow>
        (\<exists>n. slot e = Num n \<and> fromSlot \<le> n \<and> n \<le> toSlot) \<and>
        (\<exists>pre mid post. graffiti e = pre @ mid @ post \<and>
                         list_all2 ci_char (js ''dappnode'') mid))"
proof -
  have "in_window (slot e) = (\<exists>n. slot e = Num n \<and> fromSlot \<le> n \<and> n \<le> toSlot)"
    by (cases "slot e") (simp_all add: in_window_def)
  then show ?thesis
    by (simp add: validatorIndexes_eq distinct_first_seen set_first_seen matching_def
        graffitiToMatch_test_def regex_search_iff)
qed

theorem filter_and_dedup_witness:
  "validatorIndexes
     [\<lparr>slot = Num 327600, proposerIndex = Num 5, graffiti = js ''DappNode-x''\<rparr>,
      \<lparr>slot = Num 327601, proposerIndex = Num 6, graffiti = js ''other''\<rparr>,
      \<lparr>slot = Num 327602, proposerIndex = Num 5, graffiti = js ''dappnode-y''\<rparr>,
      \<lparr>slot = Num 442799, proposerIndex = Num 7, graffiti = js ''my DAPPNODE''\<rparr>,
      \<lparr>slot = Num 442800, proposerIndex = Num 8, graffiti = js ''dappnode''\<rparr>]
   = [Num 5, Num 7]"
  using filter_and_dedup [of
     "[\<lparr>slot = Num 327600, proposerIndex = Num 5, graffiti = js ''DappNode-x''\<rparr>,
      \<lparr>slot = Num 327601, proposerIndex = Num 6, graffiti = js ''other''\<rparr>,
      \<lparr>slot = Num 327602, proposerIndex = Num 5, graffiti = js ''dappnode-y''\<rparr>,
      \<lparr>slot = Num 442799, proposerIndex = Num 7, graffiti = js ''my DAPPNODE''\<rparr>,
      \<lparr>slot = Num 442800, proposerIndex = Num 8, graffiti = js ''dappnode''\<rparr>]"]
  by (simp add: matching_def in_window_def fromSlot_def toSlot_def graffitiToMatch_test_def
      ci_char_def js_def)

text \<open>
  Claim C8. The resolver asks for the index list in consecutive batches of 100, one
  request per batch, in the order of the list: the requests made are always a prefix of
  the batches, and all of them when every request succeeds. A list of 250 indexes gives
  3 requests, of sizes 100, 100 and 50.
\<close>

theorem batching:
  "(\<exists>k. requests (final_state (fetchDepositAddresses api vis)) = take k (batches vis))
   \<and> requests (final_state (fetchDepositAddresses (\<lambda>b. Inr (resp b)) vis)) = batches vis
   \<and> concat (batches vis) = vis
   \<and> (\<forall>b \<in> set (batches vis). 0 < length b \<and> length b \<le> 100)
   \<and> (\<forall>b \<in> set (butlast (batches vis)). length b = 100)
   \<and> (length vis = 250 \<longrightarrow> map length (batches vis) = [100, 100, 50])"
proof -
  have "\<exists>k. requests (final_state (fetchDepositAddresses api vis)) = take k (batches vis)"
    using fetch_loop_requests_prefix [of api vis 0 "\<lparr>addresses = [], requests = [], console = []\<rparr>"]
    by (simp add: fetchDepositAddresses_def)
  moreover have "requests (final_state (fetchDepositAddresses (\<lambda>b. Inr (resp b)) vis)) =
                 batches vis"
    by (simp add: fetchDepositAddresses_def fetch_loop_success final_state_def requests_foldl)
  ultimately show ?thesis
    using concat_batches [of vis] batches_length [of _ vis] batches_butlast [of _ vis]
      batches_250 [of vis]
    by blast
qed

theorem batching_witness:
  "map length (requests (final_state
      (fetchDepositAddresses (\<lambda>b. Inr []) (replicate 250 (Num 7))))) = [100, 100, 50]"
  using batching [of "\<lambda>b. Inr []" "replicate 250 (Num 7)" "\<lambda>b. []"]
  by simp

section \<open>Properties of split, join and trim\<close>

lemma split_on_nonempty: "split_on sep xs \<noteq> []"
  by (induction xs) (auto split: list.splits)

lemma split_on_no_sep: "sep \<notin> set xs \<Longrightarrow> split_on sep xs = [xs]"
  by (induction xs) auto

lemma split_on_append_sep:
  "sep \<notin> set xs \<Longrightarrow> split_on sep (xs @ sep # ys) = xs # split_on sep ys"
  by (induction xs) auto

lemma split_on_append:
  "split_on sep (xs @ sep # ys) = split_on sep xs @ split_on sep ys"
proof (induction xs)
  case Nil
  then show ?case by simp
next
  case (Cons x xs)
  then show ?case
    using split_on_nonempty [of sep xs] by (auto split: list.splits)
qed





lemma trim_start_all_ws: "\<forall>c \<in> set xs. is_ws c \<Longrightarrow> trim_start (xs @ ys) = trim_start ys"
  by (simp add: trim_start_def dropWhile_append)

lemma trim_start_some: "\<not> (\<forall>c \<in> set xs. is_ws c) \<Longrightarrow> trim_start (xs @ ys) = trim_start xs @ ys"
  by (auto simp: trim_start_def dropWhile_append)

lemma trim_start_id: "\<not> is_ws x \<Longrightarrow> trim_start (x # xs) = x # xs"
  by (simp add: trim_start_def)

lemma trim_end_all_ws: "\<forall>c \<in> set ys. is_ws c \<Longrightarrow> trim_end (xs @ ys) = trim_end xs"
  by (simp add: trim_end_def dropWhile_append)

lemma trim_end_some: "\<not> (\<forall>c \<in> set ys. is_ws c) \<Longrightarrow> trim_end (xs @ ys) = xs @ trim_end ys"
  by (auto simp: trim_end_def dropWhile_append)

lemma trim_end_id: "\<not> is_ws x \<Longrightarrow> trim_end (xs @ [x]) = xs @ [x]"
  by (simp add: trim_end_def)

lemma trim_end_Nil: "trim_end [] = []"
  by (simp add: trim_end_def)

lemma trim_end_blank: "\<forall>c \<in> set ys. is_ws c \<Longrightarrow> trim_end ys = []"
  using trim_end_all_ws [of ys "[]"] by (simp add: trim_end_Nil)

lemma trim_start_suffix: "\<exists>ws. xs = ws @ trim_start xs \<and> (\<forall>c \<in> set ws. is_ws c)"
proof -
  have "xs = takeWhile is_ws xs @ trim_start xs" by (simp add: trim_start_def)
  moreover have "\<forall>c \<in> set (takeWhile is_ws xs). is_ws c" by (auto dest: set_takeWhileD)
  ultimately show ?thesis by blast
qed

lemma is_ws_newline: "is_ws newline"
  by (simp add: is_ws_def newline_def)

section \<open>Properties of the number conversions\<close>

lemma nat_digits_digits: "c \<in> set (nat_digits n) \<Longrightarrow> 48 \<le> c \<and> c \<le> 57"
proof (induction n rule: nat_digits.induct)
  case (1 n)
  show ?case
  proof (cases "n < 10")
    case True
    with "1.prems" show ?thesis by (subst (asm) nat_digits.simps) (simp add: digit_char_def)
  next
    case False
    with "1.prems" have "c \<in> set (nat_digits (n div 10)) \<or> c = digit_char (n mod 10)"
      by (subst (asm) nat_digits.simps) auto
    then show ?thesis
    proof
      assume "c \<in> set (nat_digits (n div 10))"
      with "1.IH" [OF False] show ?thesis by simp
    next
      assume "c = digit_char (n mod 10)"
      moreover have "n mod 10 < 10" by simp
      ultimately show ?thesis by (simp add: digit_char_def)
    qed
  qed
qed

lemma nat_digits_nonempty: "nat_digits n \<noteq> []"
  by (subst nat_digits.simps) simp

lemma digit_val_digit: "48 \<le> c \<Longrightarrow> c \<le> 57 \<Longrightarrow> digit_val 10 c = Some (c - 48)"
  by (auto simp: digit_val_def)

lemma read_digits_snoc:
  "\<forall>c \<in> set ds. 48 \<le> c \<and> c \<le> 57 \<Longrightarrow> d < 10 \<Longrightarrow>
   read_digits 10 acc (ds @ [digit_char d]) =
     Some ((case read_digits 10 acc ds of None \<Rightarrow> 0 | Some a \<Rightarrow> a) * 10 + d)"
proof (induction ds arbitrary: acc)
  case Nil
  then show ?case by (simp add: digit_char_def digit_val_def)
next
  case (Cons c ds)
  then show ?case by (simp add: digit_val_digit)
qed

lemma read_nat_digits: "read_digits 10 None (nat_digits n) = Some n"
proof (induction n rule: nat_digits.induct)
  case (1 n)
  show ?case
  proof (cases "n < 10")
    case True
    then show ?thesis
      by (subst nat_digits.simps) (simp add: digit_char_def digit_val_def)
  next
    case False
    have "read_digits 10 None (nat_digits (n div 10) @ [digit_char (n mod 10)]) =
          Some ((case read_digits 10 None (nat_digits (n div 10)) of
                   None \<Rightarrow> 0 | Some a \<Rightarrow> a) * 10 + n mod 10)"
      by (rule read_digits_snoc) (auto dest: nat_digits_digits)
    with False "1.IH" [OF False] show ?thesis
      by (subst nat_digits.simps) simp
  qed
qed

lemma parseInt_digits: "parseInt (nat_digits n) = Num (int n)"
proof -
  obtain d ds where e: "nat_digits n = d # ds"
    using nat_digits_nonempty [of n] by (cases "nat_digits n") auto
  then have d: "48 \<le> d \<and> d \<le> 57" using nat_digits_digits [of d n] by simp
  then have nw: "\<not> is_ws d" by (auto simp: is_ws_def)
  have r10: "(case ds of
               [] \<Rightarrow> (10::nat, d # ds)
             | b # r \<Rightarrow> if d = 48 \<and> (b = 120 \<or> b = 88) then (16, r) else (10, d # ds)) =
             (10, d # ds)"
  proof (cases ds)
    case Nil
    then show ?thesis by simp
  next
    case (Cons b r)
    with e have "48 \<le> b \<and> b \<le> 57" using nat_digits_digits [of b n] by simp
    with Cons show ?thesis by auto
  qed
  show ?thesis
    using d read_nat_digits [of n]
    by (simp add: parseInt_def e trim_start_id [OF nw] r10 Let_def del: read_digits.simps)
qed

lemma parseInt_minus_digits: "parseInt (45 # nat_digits n) = Num (- int n)"
proof -
  obtain d ds where e: "nat_digits n = d # ds"
    using nat_digits_nonempty [of n] by (cases "nat_digits n") auto
  have nw: "\<not> is_ws 45" by (simp add: is_ws_def)
  have r10: "(case ds of
               [] \<Rightarrow> (10::nat, d # ds)
             | b # r \<Rightarrow> if d = 48 \<and> (b = 120 \<or> b = 88) then (16, r) else (10, d # ds)) =
             (10, d # ds)"
  proof (cases ds)
    case Nil
    then show ?thesis by simp
  next
    case (Cons b r)
    with e have "48 \<le> b \<and> b \<le> 57" using nat_digits_digits [of b n] by simp
    with Cons show ?thesis by auto
  qed
  show ?thesis
    using read_nat_digits [of n]
    by (simp add: parseInt_def e trim_start_id [OF nw] r10 Let_def del: read_digits.simps)
qed

lemma parseInt_NaN_text: "parseInt (js ''NaN'') = NaN"
  by (simp add: parseInt_def js_def trim_start_def is_ws_def digit_val_def)

lemma parseInt_num_to_string: "parseInt (num_to_string x) = x"
proof (cases x)
  case (Num n)
  then show ?thesis
    by (cases "n < 0") (simp_all add: parseInt_digits parseInt_minus_digits)
next
  case NaN
  then show ?thesis by (simp add: parseInt_NaN_text)
qed

lemma num_to_string_chars:
  "c \<in> set (num_to_string x) \<Longrightarrow> c \<noteq> separator \<and> c \<noteq> newline \<and> \<not> is_ws c"
proof (cases x)
  case (Num n)
  assume "c \<in> set (num_to_string x)"
  with Num have "c = 45 \<or> c \<in> set (nat_digits (nat (- n))) \<or> c \<in> set (nat_digits (nat n))"
    by (auto split: if_splits)
  then have "c = 45 \<or> (48 \<le> c \<and> c \<le> 57)" by (auto dest: nat_digits_digits)
  then show ?thesis by (auto simp: separator_def newline_def is_ws_def)
next
  case NaN
  assume "c \<in> set (num_to_string x)"
  with NaN show ?thesis by (auto simp: js_def separator_def newline_def is_ws_def)
qed

lemma num_to_string_nonempty: "num_to_string x \<noteq> []"
  by (cases x) (auto simp: js_def nat_digits_nonempty)

section \<open>The claims on reading the record store back\<close>

lemma header_text: "header = js ''slot,proposerIndex,graffiti''"
  by (simp add: header_def js_def separator_def)

lemma parse_row_header: "parse_row header = header_row"
  by (simp add: header_text header_row_def parse_row_def js_def separator_def nth_opt_def
      parseInt_opt_def parseInt_def trim_start_def is_ws_def digit_val_def)

lemma header_no_newline: "newline \<notin> set header"
  by (simp add: header_text js_def newline_def)

lemma trim_header_line:
  "trim (header @ newline # rest) =
     (if \<forall>c \<in> set rest. is_ws c then header else header @ newline # trim_end rest)"
proof -
  have h: "header = 115 # tl header" "tl header = butlast (tl header) @ [105]"
    by (simp_all add: header_text js_def)
  have nw: "\<not> is_ws 115" "\<not> is_ws 105" by (simp_all add: is_ws_def)
  have s: "trim_start (header @ newline # rest) = header @ newline # rest"
    using trim_start_id [OF nw(1), of "tl header @ newline # rest"] h(1)
    by (metis append_Cons)
  have e: "trim_end header = header"
    using trim_end_id [OF nw(2), of "115 # butlast (tl header)"] h by (metis append_Cons)
  show ?thesis
  proof (cases "\<forall>c \<in> set rest. is_ws c")
    case True
    then have "\<forall>c \<in> set (newline # rest). is_ws c" by (simp add: is_ws_newline)
    then have "trim_end (header @ newline # rest) = trim_end header"
      by (rule trim_end_all_ws)
    with True s e show ?thesis by (simp add: trim_def)
  next
    case False
    then have n: "\<not> (\<forall>c \<in> set (newline # rest). is_ws c)" by simp
    have "trim_end (header @ newline # rest) = header @ trim_end (newline # rest)"
      using n by (rule trim_end_some)
    moreover have "trim_end (newline # rest) = newline # trim_end rest"
      using trim_end_some [OF False, of "[newline]"] by simp
    ultimately show ?thesis using False s by (simp add: trim_def)
  qed
qed

lemma readEntries_header_line:
  "readEntries (Some (header @ newline # rest)) =
     Inr (header_row #
          (if \<forall>c \<in> set rest. is_ws c then []
           else map parse_row (split_on newline (trim_end rest))))"
  by (simp add: readEntries_def readFileSync_def trim_header_line parse_row_header
      split_on_no_sep [OF header_no_newline] split_on_append_sep [OF header_no_newline])



text \<open>
  Claim C2, as the code has it. \<open>readEntries\<close> parses every line of the trimmed file,
  the header line too: on a file that starts with the header line, the first record
  returned is the header parsed, with \<open>NaN\<close> for its slot and its proposer index and the
  text \<open>graffiti\<close>; the records of the other lines follow.
\<close>

theorem readEntries_keeps_header:
  "readEntries (Some (header @ newline # rest)) =
     Inr (parse_row header #
          (if \<forall>c \<in> set rest. is_ws c then []
           else map parse_row (split_on newline (trim_end rest))))
   \<and> parse_row header = \<lparr>slot = NaN, proposerIndex = NaN, graffiti = js ''graffiti''\<rparr>"
  using parse_row_header by (simp add: readEntries_header_line header_row_def)

theorem readEntries_keeps_header_witness:
  "readEntries (Some (header @ newline # js ''7,8,xyz\<newline>'')) =
     Inr [\<lparr>slot = NaN, proposerIndex = NaN, graffiti = js ''graffiti''\<rparr>,
          \<lparr>slot = Num 7, proposerIndex = Num 8, graffiti = js ''xyz''\<rparr>]"
  using readEntries_keeps_header [of "js ''7,8,xyz\<newline>''"]
  by (simp add: js_def is_ws_def trim_end_def newline_def parse_row_def separator_def
      nth_opt_def parseInt_opt_def parseInt_def trim_start_def digit_val_def)

text \<open>
  The claim as the specification states it (the header row never appears among the
  records returned) fails on a store with the header and one record.
\<close>

theorem readEntries_skips_header_counterexample:
  "readEntries (Some (js ''slot,proposerIndex,graffiti\<newline>5,6,abc\<newline>'')) =
     Inr [parse_row header, \<lparr>slot = Num 5, proposerIndex = Num 6, graffiti = js ''abc''\<rparr>]
   \<and> parse_row header = \<lparr>slot = NaN, proposerIndex = NaN, graffiti = js ''graffiti''\<rparr>"
proof -
  have "js ''slot,proposerIndex,graffiti\<newline>5,6,abc\<newline>'' =
        header @ newline # js ''5,6,abc\<newline>''"
    by (simp add: header_text js_def newline_def)
  then show ?thesis
    using parse_row_header
    by (simp add: readEntries_header_line header_row_def)
       (simp add: js_def is_ws_def trim_end_def newline_def parse_row_def separator_def
          nth_opt_def parseInt_opt_def parseInt_def trim_start_def digit_val_def)
qed




lemma validatorIndexes_header: "validatorIndexes (header_row # rows) = validatorIndexes rows"
  by (simp add: validatorIndexes_def header_row_def)

lemma set_validatorIndexes:
  "set (validatorIndexes rows) = proposerIndex ` {e \<in> set rows. matching e}"
  by (simp add: validatorIndexes_eq set_first_seen)

lemma in_window_iff: "in_window s = (\<exists>n. s = Num n \<and> fromSlot \<le> n \<and> n \<le> toSlot)"
  by (cases s) (simp_all add: in_window_def)

text \<open>
  Claim C9, as the code has it. On a store that starts with the header line,
  \<open>readEntries\<close> returns first the record of the header, whose slot and proposer index
  are \<open>NaN\<close>; the comparison of the slot with the window rejects it, so the index list is
  the one of the other records. A \<open>NaN\<close> proposer index enters the list only from a
  record whose slot is a number in the window and whose graffiti matches.
\<close>

theorem header_row_rejected:
  "\<exists>rows. readEntries (Some (header @ newline # rest)) = Inr (header_row # rows)
     \<and> slot header_row = NaN \<and> proposerIndex header_row = NaN
     \<and> \<not> js_ge (slot header_row) (Num fromSlot)
     \<and> validatorIndexes (header_row # rows) = validatorIndexes rows
     \<and> (NaN \<in> set (validatorIndexes (header_row # rows)) \<longrightarrow>
          (\<exists>e \<in> set rows. proposerIndex e = NaN
             \<and> (\<exists>n. slot e = Num n \<and> fromSlot \<le> n \<and> n \<le> toSlot)
             \<and> graffitiToMatch_test (graffiti e)))"
proof -
  have "NaN \<in> set (validatorIndexes rows) \<longrightarrow>
          (\<exists>e \<in> set rows. proposerIndex e = NaN
             \<and> (\<exists>n. slot e = Num n \<and> fromSlot \<le> n \<and> n \<le> toSlot)
             \<and> graffitiToMatch_test (graffiti e))" for rows
  proof
    assume "NaN \<in> set (validatorIndexes rows)"
    then obtain e where "e \<in> set rows" "matching e" "proposerIndex e = NaN"
      by (auto simp: set_validatorIndexes)
    then have "e \<in> set rows \<and> (proposerIndex e = NaN
             \<and> (\<exists>n. slot e = Num n \<and> fromSlot \<le> n \<and> n \<le> toSlot)
             \<and> graffitiToMatch_test (graffiti e))"
      by (simp add: matching_def in_window_iff)
    then show "\<exists>e \<in> set rows. proposerIndex e = NaN
             \<and> (\<exists>n. slot e = Num n \<and> fromSlot \<le> n \<and> n \<le> toSlot)
             \<and> graffitiToMatch_test (graffiti e)"
      by blast
  qed
  then show ?thesis
    by (simp add: readEntries_header_line validatorIndexes_header) (simp add: header_row_def)
qed

theorem header_row_rejected_witness:
  "readEntries (Some (header @ newline # js ''327601,n/a,dappnode\<newline>'')) =
     Inr [header_row, \<lparr>slot = Num 327601, proposerIndex = NaN, graffiti = js ''dappnode''\<rparr>]
   \<and> NaN \<in> set (validatorIndexes
       [header_row, \<lparr>slot = Num 327601, proposerIndex = NaN, graffiti = js ''dappnode''\<rparr>])"
proof -
  have r: "readEntries (Some (header @ newline # js ''327601,n/a,dappnode\<newline>'')) =
     Inr [header_row, \<lparr>slot = Num 327601, proposerIndex = NaN, graffiti = js ''dappnode''\<rparr>]"
    by (simp add: readEntries_header_line)
       (simp add: js_def is_ws_def trim_end_def newline_def parse_row_def separator_def
          nth_opt_def parseInt_opt_def parseInt_def trim_start_def digit_val_def)
  have v: "validatorIndexes
       [\<lparr>slot = Num 327601, proposerIndex = NaN, graffiti = js ''dappnode''\<rparr>] = [NaN]"
    by (simp add: validatorIndexes_def fromSlot_def toSlot_def graffitiToMatch_test_def
        js_def ci_char_def set_add_def)
  from header_row_rejected [of "js ''327601,n/a,dappnode\<newline>''"] r v
  show ?thesis by auto
qed

text \<open>
  The claim as the specification states it (no \<open>NaN\<close> proposer index ever enters the
  index set) fails on a store whose record has a slot in the window, a matching graffiti
  and a proposer index that is not a number.
\<close>

theorem nan_index_counterexample:
  "readEntries (Some (js ''slot,proposerIndex,graffiti\<newline>400000,NaN,DAppNode rocks\<newline>'')) =
     Inr [header_row,
          \<lparr>slot = Num 400000, proposerIndex = NaN, graffiti = js ''DAppNode rocks''\<rparr>]
   \<and> validatorIndexes
       [header_row,
        \<lparr>slot = Num 400000, proposerIndex = NaN, graffiti = js ''DAppNode rocks''\<rparr>] = [NaN]"
proof -
  have "js ''slot,proposerIndex,graffiti\<newline>400000,NaN,DAppNode rocks\<newline>'' =
        header @ newline # js ''400000,NaN,DAppNode rocks\<newline>''"
    by (simp add: header_text js_def newline_def)
  then have "readEntries
       (Some (js ''slot,proposerIndex,graffiti\<newline>400000,NaN,DAppNode rocks\<newline>'')) =
     Inr [header_row,
          \<lparr>slot = Num 400000, proposerIndex = NaN, graffiti = js ''DAppNode rocks''\<rparr>]"
    by (simp add: readEntries_header_line)
       (simp add: js_def is_ws_def trim_end_def newline_def parse_row_def separator_def
          nth_opt_def parseInt_opt_def parseInt_def trim_start_def digit_val_def)
  moreover have "validatorIndexes
       [header_row,
        \<lparr>slot = Num 400000, proposerIndex = NaN, graffiti = js ''DAppNode rocks''\<rparr>] = [NaN]"
    by (simp add: validatorIndexes_def header_row_def fromSlot_def toSlot_def
        graffitiToMatch_test_def js_def ci_char_def set_add_def)
  ultimately show ?thesis by simp
qed

section \<open>The claim on resuming the scan\<close>

lemma fetched_add_blocks: "fetched (add_blocks blocks st) = fetched st"
  by (induction blocks arbitrary: st) simp_all

lemma scan_NaN: "scan api stop NaN st = Inr st"
  by (subst scan.simps) simp

lemma scan_fetched:
  "\<exists>m. m \<le> toSlot \<and> (s \<le> toSlot \<and> \<not> stop (Num s) \<longrightarrow> s \<le> m) \<and>
       fetched (final_state (scan api stop (Num s) st)) = fetched st @ map Num [s..m]"
proof (induction "nat (toSlot + 1 - s)" arbitrary: s st rule: less_induct)
  case less
  show ?case
  proof (cases "s \<le> toSlot \<and> \<not> stop (Num s)")
    case False
    then have "scan api stop (Num s) st = Inr st"
      by (subst scan.simps) auto
    then have "min (s - 1) toSlot \<le> toSlot \<and>
        (s \<le> toSlot \<and> \<not> stop (Num s) \<longrightarrow> s \<le> min (s - 1) toSlot) \<and>
        fetched (final_state (scan api stop (Num s) st)) =
          fetched st @ map Num [s..min (s - 1) toSlot]"
      using False by (simp add: final_state_def)
    then show ?thesis by blast
  next
    case True
    let ?st1 = "st\<lparr>fetched := fetched st @ [Num s]\<rparr>"
    show ?thesis
    proof (cases "api (Num s)")
      case (Inl e)
      with True have "scan api stop (Num s) st = Inl (e, ?st1)"
        by (subst scan.simps) (simp add: fetchBlock_def)
      with True have "s \<le> toSlot \<and> (s \<le> toSlot \<and> \<not> stop (Num s) \<longrightarrow> s \<le> s) \<and>
          fetched (final_state (scan api stop (Num s) st)) = fetched st @ map Num [s..s]"
        by (simp add: final_state_def)
      then show ?thesis by blast
    next
      case (Inr blocks)
      with True have eq: "scan api stop (Num s) st =
          scan api stop (Num (s + 1)) (add_blocks blocks ?st1)"
        by (subst scan.simps) (simp add: fetchBlock_def)
      from True have "nat (toSlot + 1 - (s + 1)) < nat (toSlot + 1 - s)" by simp
      from less [OF this, of "add_blocks blocks ?st1"] obtain m where
        m: "m \<le> toSlot"
           "fetched (final_state (scan api stop (Num (s + 1)) (add_blocks blocks ?st1))) =
            fetched (add_blocks blocks ?st1) @ map Num [s + 1..m]"
        by blast
      have u: "[s..max s m] = s # [s + 1..m]"
        by (cases "s \<le> m") (simp_all add: upto_rec1 max_def)
      from m True have "max s m \<le> toSlot \<and>
          (s \<le> toSlot \<and> \<not> stop (Num s) \<longrightarrow> s \<le> max s m) \<and>
          fetched (final_state (scan api stop (Num s) st)) =
            fetched st @ map Num [s..max s m]"
        by (simp add: eq fetched_add_blocks u)
      then show ?thesis by blast
    qed
  qed
qed

text \<open>
  Claim C1, as the code has it. When the record store has a checkpoint, that is when
  \<open>getLastSlot\<close> returns the number \<open>S\<close>, the scan requests the slots \<open>S + 1\<close>,
  \<open>S + 2\<close>, ... in ascending order, up to \<open>toSlot\<close> at most, and no slot \<open>S\<close> or
  earlier; it starts at \<open>S + 1\<close> whenever \<open>S + 1\<close> is not beyond \<open>toSlot\<close> and no
  interrupt came.
\<close>

theorem scan_resumes_after_checkpoint:
  assumes "getLastSlot (CsvRecord_new f) = Inr (Some (Num S))"
  shows "\<exists>m. m \<le> toSlot \<and> (S < toSlot \<and> \<not> stop (Num (S + 1)) \<longrightarrow> S + 1 \<le> m) \<and>
           fetched (final_state (scan_phase api stop f)) = map Num [S + 1..m] \<and>
           (\<forall>n \<le> S. Num n \<notin> set (fetched (final_state (scan_phase api stop f))))"
proof -
  let ?st0 = "\<lparr>store = CsvRecord_new f, fetched = [], progress = []\<rparr>"
  have "scan_phase api stop f = scan api stop (Num (S + 1)) ?st0"
    using assms by (simp add: scan_phase_def Let_def)
  moreover from scan_fetched [of "S + 1" stop api ?st0] obtain m where
    "m \<le> toSlot" "S + 1 \<le> toSlot \<and> \<not> stop (Num (S + 1)) \<longrightarrow> S + 1 \<le> m"
    "fetched (final_state (scan api stop (Num (S + 1)) ?st0)) = map Num [S + 1..m]"
    by auto
  ultimately have "m \<le> toSlot \<and> (S < toSlot \<and> \<not> stop (Num (S + 1)) \<longrightarrow> S + 1 \<le> m) \<and>
           fetched (final_state (scan_phase api stop f)) = map Num [S + 1..m] \<and>
           (\<forall>n \<le> S. Num n \<notin> set (fetched (final_state (scan_phase api stop f))))"
    by auto
  then show ?thesis by blast
qed

lemma checkpoint_442797:
  "getLastSlot (CsvRecord_new (Some (js ''slot,proposerIndex,graffiti\<newline>442797,5,x\<newline>''))) =
     Inr (Some (Num 442797))"
  by (simp add: CsvRecord_new_def getLastSlot_def readFileSync_def js_def trim_def
      trim_start_def trim_end_def is_ws_def newline_def nth_opt_def header_def separator_def
      parseInt_opt_def parseInt_def digit_val_def Let_def)

theorem scan_resumes_after_checkpoint_witness:
  "fetched (final_state (scan_phase (\<lambda>s. Inr []) (\<lambda>s. False)
      (Some (js ''slot,proposerIndex,graffiti\<newline>442797,5,x\<newline>'')))) =
   [Num 442798, Num 442799]"
proof -
  obtain m where m: "m \<le> toSlot" "442797 + 1 \<le> m"
    "fetched (final_state (scan_phase (\<lambda>s. Inr []) (\<lambda>s. False)
        (Some (js ''slot,proposerIndex,graffiti\<newline>442797,5,x\<newline>'')))) =
     map Num [442797 + 1..m]"
    using scan_resumes_after_checkpoint [OF checkpoint_442797, of "\<lambda>s. False" "\<lambda>s. Inr []"]
    by (auto simp: toSlot_def)
  then have "m = 442798 \<or> m = 442799" by (auto simp: toSlot_def)
  moreover have "Num 442799 \<in> set (fetched (final_state (scan_phase (\<lambda>s. Inr []) (\<lambda>s. False)
        (Some (js ''slot,proposerIndex,graffiti\<newline>442797,5,x\<newline>'')))))"
    using checkpoint_442797
    by (simp add: scan_phase_def Let_def scan.simps toSlot_def fetchBlock_def final_state_def)
  ultimately show ?thesis using m(3) by (auto simp: upto_rec1)
qed

text \<open>
  The claim as the specification states it (with a checkpoint \<open>S\<close> the scan begins at
  the larger of \<open>S + 1\<close> and \<open>fromSlot\<close>) fails on a store whose last record has slot
  10: the first slot requested is 11, below \<open>fromSlot\<close>.
\<close>

theorem scan_start_counterexample:
  "getLastSlot (CsvRecord_new (Some (js ''slot,proposerIndex,graffiti\<newline>10,5,x\<newline>''))) =
     Inr (Some (Num 10))
   \<and> fetched (final_state (scan_phase (\<lambda>s. Inl RequestError) (\<lambda>s. False)
        (Some (js ''slot,proposerIndex,graffiti\<newline>10,5,x\<newline>'')))) = [Num 11]
   \<and> max (10 + 1) fromSlot = 327600"
proof -
  have c: "getLastSlot (CsvRecord_new (Some (js ''slot,proposerIndex,graffiti\<newline>10,5,x\<newline>''))) =
     Inr (Some (Num 10))"
    by (simp add: CsvRecord_new_def getLastSlot_def readFileSync_def js_def trim_def
        trim_start_def trim_end_def is_ws_def newline_def nth_opt_def header_def separator_def
        parseInt_opt_def parseInt_def digit_val_def Let_def)
  then have "fetched (final_state (scan_phase (\<lambda>s. Inl RequestError) (\<lambda>s. False)
        (Some (js ''slot,proposerIndex,graffiti\<newline>10,5,x\<newline>'')))) = [Num 11]"
    by (simp add: scan_phase_def Let_def scan.simps toSlot_def fetchBlock_def final_state_def)
  with c show ?thesis by (simp add: fromSlot_def)
qed

section \<open>The claims on appending a record and reading it back\<close>

lemma row_line_parts:
  "row_line r = num_to_string (slot r) @ separator #
                num_to_string (proposerIndex r) @ separator # graffiti r"
  by (simp add: row_line_def)

lemma split_row_line:
  "split_on separator (row_line r) =
     num_to_string (slot r) # num_to_string (proposerIndex r) #
     split_on separator (graffiti r)"
proof -
  have a: "separator \<notin> set (num_to_string (slot r))"
    and b: "separator \<notin> set (num_to_string (proposerIndex r))"
    using num_to_string_chars by blast+
  show ?thesis
    by (simp add: row_line_parts split_on_append_sep [OF a] split_on_append_sep [OF b])
qed


lemma row_line_first: "\<exists>a rest. row_line r = a # rest \<and> \<not> is_ws a"
proof -
  obtain a as where e: "num_to_string (slot r) = a # as"
    using num_to_string_nonempty [of "slot r"] by (cases "num_to_string (slot r)") auto
  then have "\<not> is_ws a" using num_to_string_chars [of a "slot r"] by simp
  with e show ?thesis by (simp add: row_line_parts)
qed

lemma row_line_last:
  assumes "graffiti r = [] \<or> \<not> is_ws (last (graffiti r))"
  shows "\<exists>init z. row_line r = init @ [z] \<and> \<not> is_ws z"
proof (cases "graffiti r = []")
  case True
  have "\<not> is_ws separator" by (simp add: is_ws_def separator_def)
  moreover have "row_line r =
      (num_to_string (slot r) @ separator # num_to_string (proposerIndex r)) @ [separator]"
    using True by (simp add: row_line_parts)
  ultimately show ?thesis by blast
next
  case False
  then have "graffiti r = butlast (graffiti r) @ [last (graffiti r)]" by simp
  then have "row_line r =
      (num_to_string (slot r) @ separator # num_to_string (proposerIndex r) @
       separator # butlast (graffiti r)) @ [last (graffiti r)]"
    by (simp add: row_line_parts)
  with assms False show ?thesis by blast
qed

lemma row_line_no_newline:
  "newline \<notin> set (graffiti r) \<Longrightarrow> newline \<notin> set (row_line r)"
  using num_to_string_chars [of newline]
  by (auto simp: row_line_parts separator_def newline_def)

lemma lines_after_addEntry:
  assumes nl: "newline \<notin> set (graffiti r)"
    and ws: "graffiti r = [] \<or> \<not> is_ws (last (graffiti r))"
    and c: "c = [] \<or> last c = newline"
  shows "\<exists>pre. split_on newline (trim (c @ row_line r @ [newline])) = pre @ [row_line r]"
proof -
  let ?l = "row_line r"
  obtain a rest where first: "?l = a # rest" "\<not> is_ws a"
    using row_line_first by blast
  obtain init z where last: "?l = init @ [z]" "\<not> is_ws z"
    using row_line_last [OF ws] by blast
  have nol: "newline \<notin> set ?l" using nl by (rule row_line_no_newline)
  have ts: "\<exists>p. trim_start (c @ ?l @ [newline]) = p @ ?l @ [newline] \<and>
                (p = [] \<or> (\<exists>p'. p = p' @ [newline]))"
  proof (cases "\<forall>x \<in> set c. is_ws x")
    case True
    then have "trim_start (c @ ?l @ [newline]) = trim_start (?l @ [newline])"
      by (rule trim_start_all_ws)
    also have "\<dots> = [] @ ?l @ [newline]"
      using trim_start_id [OF first(2), of "rest @ [newline]"] first(1) by simp
    finally show ?thesis by blast
  next
    case False
    then have e: "trim_start (c @ ?l @ [newline]) = trim_start c @ ?l @ [newline]"
      by (rule trim_start_some)
    obtain w where w: "c = w @ trim_start c" "\<forall>x \<in> set w. is_ws x"
      using trim_start_suffix by blast
    with False have ne: "trim_start c \<noteq> []" by (metis append_Nil2)
    from False c have "last c = newline" by auto
    with w(1) ne have "last (trim_start c) = newline" by (metis last_appendR)
    with ne have "trim_start c = butlast (trim_start c) @ [newline]"
      by (metis append_butlast_last_id)
    with e show ?thesis by blast
  qed
  then obtain p where p: "trim_start (c @ ?l @ [newline]) = p @ ?l @ [newline]"
    "p = [] \<or> (\<exists>p'. p = p' @ [newline])" by blast
  have "trim_end ((p @ ?l) @ [newline]) = trim_end (p @ ?l)"
    by (rule trim_end_all_ws) (simp add: is_ws_newline)
  also have "\<dots> = p @ ?l"
    using trim_end_id [OF last(2), of "p @ init"] last(1) by simp
  finally have tr: "trim (c @ ?l @ [newline]) = p @ ?l"
    by (simp add: trim_def p(1))
  show ?thesis
  proof (cases "p = []")
    case True
    then have "split_on newline (trim (c @ ?l @ [newline])) = [] @ [?l]"
      by (simp add: tr split_on_no_sep [OF nol])
    then show ?thesis by blast
  next
    case False
    with p(2) obtain p' where "p = p' @ [newline]" by blast
    then have "split_on newline (trim (c @ ?l @ [newline])) = split_on newline p' @ [?l]"
      by (simp add: tr split_on_append split_on_no_sep [OF nol])
    then show ?thesis by blast
  qed
qed


text \<open>
  The checkpoint is the slot of the record appended last: this is what makes the slot
  persisted last the point where the next run resumes.
\<close>

lemma num_to_string_first: "\<exists>a rest. num_to_string x = a # rest \<and> a \<noteq> 115"
proof (cases x)
  case NaN
  then show ?thesis by (simp add: js_def)
next
  case (Num n)
  obtain d ds where e: "num_to_string x = d # ds"
    using num_to_string_nonempty [of x] by (cases "num_to_string x") auto
  with Num have "d = 45 \<or> d \<in> set (nat_digits (nat n))" by (auto split: if_splits)
  then have "d \<noteq> 115" by (auto dest: nat_digits_digits)
  with e show ?thesis by blast
qed

lemma getLastSlot_addEntry:
  assumes "newline \<notin> set (graffiti r)"
    and ws: "graffiti r = [] \<or> \<not> is_ws (last (graffiti r))"
    and "c = [] \<or> last c = newline"
  shows "getLastSlot (addEntry r (Some c)) = Inr (Some (slot r))"
proof -
  let ?l = "row_line r"
  obtain pre where pre: "split_on newline (trim (c @ ?l @ [newline])) = pre @ [?l]"
    using lines_after_addEntry [OF assms] by blast
  obtain a rest where first: "?l = a # rest" "\<not> is_ws a"
    using row_line_first by blast
  obtain init z where last: "?l = init @ [z]" "\<not> is_ws z"
    using row_line_last [OF ws] by blast
  have "trim_start ?l = ?l" using trim_start_id [OF first(2), of rest] first(1) by simp
  moreover have "trim_end ?l = ?l" using trim_end_id [OF last(2), of init] last(1) by simp
  ultimately have t: "trim ?l = ?l" by (simp add: trim_def)
  obtain b bs where "num_to_string (slot r) = b # bs" "b \<noteq> 115"
    using num_to_string_first by blast
  then have "hd ?l \<noteq> hd header" by (simp add: row_line_parts header_text js_def)
  then have nh: "?l \<noteq> header" by auto
  have ne: "?l \<noteq> []" using first(1) by simp
  show ?thesis
    using nh ne
    by (simp add: getLastSlot_def readFileSync_def addEntry_def pre nth_opt_def t
        split_row_line parseInt_opt_def parseInt_num_to_string Let_def)
qed









section \<open>The start of the scan on a store without a checkpoint\<close>

text \<open>
  With no checkpoint the variable \<open>lastSlot\<close> is \<open>fromSlot\<close>, and the loop starts at
  \<open>lastSlot + 1\<close>: the slot \<open>fromSlot\<close> itself is not requested.
\<close>

lemma scan_without_checkpoint:
  assumes "getLastSlot (CsvRecord_new f) = Inr None"
  shows "\<exists>m. fetched (final_state (scan_phase api stop f)) = map Num [fromSlot + 1..m]"
proof -
  let ?st0 = "\<lparr>store = CsvRecord_new f, fetched = [], progress = []\<rparr>"
  have "scan_phase api stop f = scan api stop (Num (fromSlot + 1)) ?st0"
    using assms by (simp add: scan_phase_def Let_def)
  with scan_fetched [of "fromSlot + 1" stop api ?st0] show ?thesis by auto
qed

lemma fresh_store_has_no_checkpoint: "getLastSlot (CsvRecord_new None) = Inr None"
proof -
  have "trim (header @ [newline]) = header"
    using trim_header_line [of "[]"] by simp
  moreover have "trim header = header"
    by (simp add: header_text js_def trim_def trim_start_def trim_end_def is_ws_def)
  ultimately show ?thesis
    by (simp add: CsvRecord_new_def getLastSlot_def readFileSync_def Let_def nth_opt_def
        split_on_no_sep [OF header_no_newline])
qed

end
